theory Spec2Isabelle
  imports Main "HOL-Library.Sublist"
begin

section \<open>Strings, paths and the observable events of \<open>cli.js\<close>\<close>

text \<open>
  A JavaScript string is modelled as a \<^typ>\<open>string\<close>: the code units considered are those
  below 256. A file-system path is the list of its components, so that
  \<open>path.join(dir, entry.name)\<close> appends one component; \<open>pathString\<close> prints it.
\<close>

type_synonym path = "string list"

definition LF :: char where "LF = CHR 0x0A"
definition CR :: char where "CR = CHR 0x0D"
definition BSL :: char where "BSL = CHR 0x5C"

text \<open>\<open>Array.prototype.join(sep)\<close> on an array of strings.\<close>

fun join :: "string \<Rightarrow> string list \<Rightarrow> string" where
  "join sep [] = []"
| "join sep [x] = x"
| "join sep (x # y # ys) = x @ sep @ join sep (y # ys)"

definition pathString :: "path \<Rightarrow> string" where
  "pathString p = join ''/'' p"

text \<open>
  \<open>Array.prototype.slice(start, end)\<close> for integer arguments: a negative index counts from
  the end, both indices are clamped to the array, and an empty range gives the empty array.
\<close>

definition slice :: "'a list \<Rightarrow> int \<Rightarrow> int \<Rightarrow> 'a list" where
  "slice xs start end' =
     (let len = int (length xs);
          k = (if start < 0 then max (len + start) 0 else min start len);
          fin = (if end' < 0 then max (len + end') 0 else min end' len)
      in take (nat (fin - k)) (drop (nat k) xs))"

text \<open>
  \<open>content.split(/\r?\n/)\<close>: the separator is a line feed, together with the carriage
  return directly before it when there is one. The first argument is the piece read so far.
  The result has at least one element.
\<close>

fun splitLinesFrom :: "string \<Rightarrow> string \<Rightarrow> string list" where
  "splitLinesFrom cur [] = [cur]"
| "splitLinesFrom cur [c] = (if c = LF then [cur, []] else [cur @ [c]])"
| "splitLinesFrom cur (c # d # cs) =
     (if c = CR \<and> d = LF then cur # splitLinesFrom [] cs
      else if c = LF then cur # splitLinesFrom [] (d # cs)
      else splitLinesFrom (cur @ [c]) (d # cs))"

definition splitLines :: "string \<Rightarrow> string list" where
  "splitLines content = splitLinesFrom [] content"

text \<open>
  What the program does to the outside world, in the order it does it. \<open>TestLine f i\<close> is
  the evaluation of \<open>regex.test(lines[i])\<close> on the 0-based line \<open>i\<close> of file \<open>f\<close>, and
  \<open>Push f n\<close> is \<open>results.push\<close> of the record with the 1-based line number \<open>n\<close>.
\<close>

datatype event =
    ReadDir path
  | Stat path
  | ReadFile path
  | TestLine path nat
  | Push path nat
  | NewRegExp string
  | ChatCompletion string
  | Stdout string
  | Stderr string
  | Exit nat

section \<open>\<open>searchFiles\<close>\<close>

record MatchRecord =
  "file" :: path
  line :: nat
  snippet :: string

type_synonym search_state = "MatchRecord list \<times> event list"

text \<open>
  The three lines that build the snippet of a match at the 0-based index \<open>i\<close>:
  \<open>start = Math.max(0, i - windowLines)\<close>, \<open>end = Math.min(lines.length, i + windowLines + 1)\<close>,
  \<open>lines.slice(start, end).join('\n')\<close>.
\<close>

definition snippetAt :: "string list \<Rightarrow> nat \<Rightarrow> int \<Rightarrow> string" where
  "snippetAt lines i windowLines =
     (let start = max 0 (int i - windowLines);
          end' = min (int (length lines)) (int i + windowLines + 1)
      in join [LF] (slice lines start end'))"

text \<open>
  The inner loop \<open>for (let i = 0; i < lines.length; i++)\<close>, entered at index \<open>i\<close> with the
  results and the events accumulated so far. \<open>regex\<close> is \<open>regex.test\<close>.
\<close>

function scanLines ::
  "path \<Rightarrow> string list \<Rightarrow> (string \<Rightarrow> bool) \<Rightarrow> int \<Rightarrow> int \<Rightarrow> nat \<Rightarrow> search_state \<Rightarrow> search_state"
where
  "scanLines f lines regex windowLines maxResults i (results, log) =
     (if i < length lines then
        (if regex (lines ! i) then
           (let results' = results @ [\<lparr>file = f, line = i + 1, snippet = snippetAt lines i windowLines\<rparr>];
                log' = log @ [TestLine f i, Push f (i + 1)]
            in if int (length results') \<ge> maxResults then (results', log')
               else scanLines f lines regex windowLines maxResults (i + 1) (results', log'))
         else scanLines f lines regex windowLines maxResults (i + 1) (results, log @ [TestLine f i]))
      else (results, log))"
  by pat_completeness auto
termination
  by (relation "measure (\<lambda>(f, lines, regex, windowLines, maxResults, i, st). length lines - i)") auto

declare scanLines.simps [simp del]

text \<open>
  The outer loop \<open>for (const file of files)\<close>. \<open>readFile f\<close> is the decoded content of \<open>f\<close>,
  or \<open>None\<close> when \<open>fs.promises.readFile(file, 'utf8')\<close> rejects; the \<open>catch\<close> block is empty,
  so the loop goes on with the next file.
\<close>

fun searchLoop ::
  "(path \<Rightarrow> string option) \<Rightarrow> (string \<Rightarrow> bool) \<Rightarrow> int \<Rightarrow> int \<Rightarrow> path list \<Rightarrow> search_state \<Rightarrow> search_state"
where
  "searchLoop readFile regex windowLines maxResults [] st = st"
| "searchLoop readFile regex windowLines maxResults (f # fs) (results, log) =
     (if int (length results) \<ge> maxResults then (results, log)
      else (case readFile f of
              None \<Rightarrow> searchLoop readFile regex windowLines maxResults fs (results, log @ [ReadFile f])
            | Some content \<Rightarrow>
                searchLoop readFile regex windowLines maxResults fs
                  (scanLines f (splitLines content) regex windowLines maxResults 0
                     (results, log @ [ReadFile f]))))"

definition searchFiles ::
  "(path \<Rightarrow> string option) \<Rightarrow> path list \<Rightarrow> (string \<Rightarrow> bool) \<Rightarrow> int \<Rightarrow> int \<Rightarrow> search_state"
where
  "searchFiles readFile files regex windowLines maxResults =
     searchLoop readFile regex windowLines maxResults files ([], [])"

section \<open>\<open>walk\<close>\<close>

text \<open>
  The directory tree as \<open>fs.promises.readdir(dir, {withFileTypes: true})\<close> and
  \<open>fs.promises.stat\<close> show it. A regular file carries what \<open>stat\<close> gives for it: its size in
  bytes, or \<open>None\<close> when \<open>stat\<close> rejects. A directory carries its entries in the order
  \<open>readdir\<close> lists them; \<open>UnreadableDirectory\<close> is a directory on which \<open>readdir\<close> rejects.
  For a symbolic link \<open>entry.isDirectory()\<close> and \<open>entry.isFile()\<close> are both false, whatever
  its target is; \<open>Special\<close> stands for sockets, FIFOs and devices.
\<close>

datatype fsnode =
    RegularFile "nat option"
  | Directory "(string \<times> fsnode) list"
  | UnreadableDirectory
  | SymbolicLink fsnode
  | Special

fun isDirectory :: "fsnode \<Rightarrow> bool" where
  "isDirectory (Directory entries) = True"
| "isDirectory UnreadableDirectory = True"
| "isDirectory node = False"

fun isFile :: "fsnode \<Rightarrow> bool" where
  "isFile (RegularFile st) = True"
| "isFile node = False"

text \<open>\<open>fs.promises.stat(fullPath)\<close> followed by \<open>stats.size\<close>; \<open>None\<close> when it rejects.\<close>

fun statSize :: "fsnode \<Rightarrow> nat option" where
  "statSize (RegularFile st) = st"
| "statSize node = None"

text \<open>
  \<open>path.extname\<close> on a name without separator (POSIX): the part from the last dot on, and
  the empty string when there is no dot, when the only dot is the first character, and for
  the name \<open>..\<close>.
\<close>

definition extname :: "string \<Rightarrow> string" where
  "extname name =
     (let after = rev (takeWhile (\<lambda>c. c \<noteq> CHR ''.'') (rev name))
      in if length after = length name then []
         else (let startDot = length name - length after - 1
               in if startDot = 0 \<or> name = ''..'' then [] else drop startDot name))"

text \<open>\<open>String.prototype.toLowerCase\<close> on code units below 256.\<close>

definition toLowerCaseChar :: "char \<Rightarrow> char" where
  "toLowerCaseChar c =
     (let n = (of_char c :: nat)
      in if (65 \<le> n \<and> n \<le> 90) \<or> (192 \<le> n \<and> n \<le> 222 \<and> n \<noteq> 215) then char_of (n + 32) else c)"

definition toLowerCase :: "string \<Rightarrow> string" where
  "toLowerCase s = map toLowerCaseChar s"

definition allowedExt :: "string list" where
  "allowedExt = [''.js'', ''.ts'', ''.jsx'', ''.tsx'', ''.py'', ''.go'', ''.java'', ''.c'', ''.cpp'',
     ''.h'', ''.cs'', ''.rb'', ''.php'', ''.swift'', ''.rs'', ''.sh'', ''.yaml'', ''.yml'', ''.json'',
     ''.env'', ''.toml'', ''.ini'', ''.md'', ''.txt'']"

type_synonym walk_state = "path list \<times> event list"

text \<open>
  A rejected \<open>readdir\<close> is not caught in \<open>walk\<close>: it ends the whole traversal. \<open>fileList\<close> is
  an array shared with the caller, so what has been pushed before the failure stays pushed:
  the error comes with the state reached.
\<close>

datatype walk_error = ReaddirError path

type_synonym walk_result = "(walk_error \<times> walk_state) + walk_state"

text \<open>The \<open>else if (entry.isFile())\<close> branch of the loop body.\<close>

definition visitFile :: "path \<Rightarrow> string \<Rightarrow> fsnode \<Rightarrow> walk_state \<Rightarrow> walk_state" where
  "visitFile fullPath name node st =
     (case st of (fileList, log) \<Rightarrow>
        (let ext = toLowerCase (extname name)
         in if ext \<in> set allowedExt then (fileList @ [fullPath], log)
            else (case statSize node of
                    Some size' \<Rightarrow>
                      if size' < 1024 * 1024 then (fileList @ [fullPath], log @ [Stat fullPath])
                      else (fileList, log @ [Stat fullPath])
                  | None \<Rightarrow> (fileList, log @ [Stat fullPath]))))"

text \<open>
  \<open>walk dir node\<close> is \<open>walk(dir, ignoreDirs, fileList)\<close> where \<open>node\<close> is what \<open>readdir\<close> finds
  at \<open>dir\<close> (the operating system resolves a symbolic link in the start directory itself);
  \<open>walkEntries\<close> is the \<open>for (const entry of entries)\<close> loop.
\<close>

fun walk :: "path \<Rightarrow> fsnode \<Rightarrow> string set \<Rightarrow> walk_state \<Rightarrow> walk_result"
and walkEntries :: "path \<Rightarrow> (string \<times> fsnode) list \<Rightarrow> string set \<Rightarrow> walk_state \<Rightarrow> walk_result"
where
  "walk dir (Directory entries) ignoreDirs (fileList, log) =
     walkEntries dir entries ignoreDirs (fileList, log @ [ReadDir dir])"
| "walk dir node ignoreDirs (fileList, log) = Inl (ReaddirError dir, (fileList, log @ [ReadDir dir]))"
| "walkEntries dir [] ignoreDirs st = Inr st"
| "walkEntries dir ((name, node) # rest) ignoreDirs st =
     (let fullPath = dir @ [name]
      in if isDirectory node then
           (if name \<in> ignoreDirs then walkEntries dir rest ignoreDirs st
            else (case walk fullPath node ignoreDirs st of
                    Inl err \<Rightarrow> Inl err
                  | Inr st' \<Rightarrow> walkEntries dir rest ignoreDirs st'))
         else if isFile node then walkEntries dir rest ignoreDirs (visitFile fullPath name node st)
         else walkEntries dir rest ignoreDirs st)"

text \<open>The file list and the events when \<open>walk\<close> has returned or thrown.\<close>

definition finalState :: "walk_result \<Rightarrow> walk_state" where
  "finalState r = (case r of Inl (err, st) \<Rightarrow> st | Inr st \<Rightarrow> st)"

section \<open>The regular expression built from the query\<close>

text \<open>
  \<open>string.replace(/[.*+?^${}()|[\]\\]/g, '\\$&')\<close>: every character of the class is replaced
  by a backslash followed by itself.
\<close>

definition escapedChars :: "char list" where
  "escapedChars = ''.*+?^${}()|[]'' @ [BSL]"

definition escapeRegExp :: "string \<Rightarrow> string" where
  "escapeRegExp s = concat (map (\<lambda>c. if c \<in> set escapedChars then [BSL, c] else [c]) s)"

text \<open>
  \<open>WhiteSpace\<close> and \<open>LineTerminator\<close> below 256: TAB, LF, VT, FF, CR, SP and NBSP. Both
  \<open>String.prototype.trim\<close> and the class \<open>\s\<close> use this set.
\<close>

definition isWhiteSpace :: "char \<Rightarrow> bool" where
  "isWhiteSpace c = ((of_char c :: nat) \<in> {9, 10, 11, 12, 13, 32, 160})"

definition trim :: "string \<Rightarrow> string" where
  "trim s = rev (dropWhile isWhiteSpace (rev (dropWhile isWhiteSpace s)))"

text \<open>
  \<open>query.split(/\s+/)\<close>: every maximal run of white space is one separator. The first
  argument is the piece read so far.
\<close>

function splitWhitespaceFrom :: "string \<Rightarrow> string \<Rightarrow> string list" where
  "splitWhitespaceFrom cur [] = [cur]"
| "splitWhitespaceFrom cur (c # cs) =
     (if isWhiteSpace c then cur # splitWhitespaceFrom [] (dropWhile isWhiteSpace cs)
      else splitWhitespaceFrom (cur @ [c]) cs)"
  by pat_completeness auto
termination
  by (relation "measure (\<lambda>(cur, s). length s)") (auto simp: length_dropWhile_le le_imp_less_Suc)

definition splitWhitespace :: "string \<Rightarrow> string list" where
  "splitWhitespace s = splitWhitespaceFrom [] s"

text \<open>
  The patterns of \<open>new RegExp(pattern, 'i')\<close> that are modelled: alternatives separated by
  \<open>|\<close>, each a sequence of characters, \<open>.\<close> (any character but a line terminator), the
  assertions \<open>^\<close> and \<open>$\<close>, a backslash before a syntax character or a slash (the character
  itself), and the quantifiers \<open>*\<close>, \<open>+\<close> and \<open>?\<close> after a character or a dot. Groups,
  classes, braces, lazy quantifiers and the other escapes are reported as \<open>Unsupported\<close>.
\<close>

datatype atom = Lit char | AnyChar
datatype quantifier = Once | ZeroOrMore | OneOrMore | ZeroOrOne
datatype item = Atom atom quantifier | LineStart | LineEnd

type_synonym alternative = "item list"
type_synonym regexp = "alternative list"

datatype regexp_error = SyntaxError | Unsupported

text \<open>The production \<open>SyntaxCharacter\<close> of the ECMAScript pattern grammar.\<close>

definition SyntaxCharacter :: "char list" where
  "SyntaxCharacter = ''^$'' @ [BSL] @ ''.*+?()[]{}|''"

fun quantifierOf :: "char \<Rightarrow> quantifier" where
  "quantifierOf c = (if c = CHR ''*'' then ZeroOrMore else if c = CHR ''+'' then OneOrMore else ZeroOrOne)"

text \<open>
  The parser reads the pattern from left to right; \<open>done\<close> are the alternatives closed by a
  \<open>|\<close> so far and \<open>cur\<close> is the alternative being read.
\<close>

fun parsePattern :: "regexp \<Rightarrow> alternative \<Rightarrow> string \<Rightarrow> regexp_error + regexp" where
  "parsePattern done' cur [] = Inr (done' @ [cur])"
| "parsePattern done' cur (c # cs) =
     (if c = CHR ''|'' then parsePattern (done' @ [cur]) [] cs
      else if c = BSL then
        (case cs of
           [] \<Rightarrow> Inl SyntaxError
         | d # ds \<Rightarrow>
             if d \<in> set SyntaxCharacter \<or> d = CHR ''/'' then parsePattern done' (cur @ [Atom (Lit d) Once]) ds
             else Inl Unsupported)
      else if c = CHR ''.'' then parsePattern done' (cur @ [Atom AnyChar Once]) cs
      else if c = CHR ''^'' then parsePattern done' (cur @ [LineStart]) cs
      else if c = CHR ''$'' then parsePattern done' (cur @ [LineEnd]) cs
      else if c \<in> set ''*+?'' then
        (if cur = [] then Inl SyntaxError
         else (case last cur of
                 Atom a Once \<Rightarrow> parsePattern done' (butlast cur @ [Atom a (quantifierOf c)]) cs
               | Atom a q \<Rightarrow> Inl (if c = CHR ''?'' then Unsupported else SyntaxError)
               | _ \<Rightarrow> Inl SyntaxError))
      else if c \<in> set ''()[]{}'' then Inl Unsupported
      else parsePattern done' (cur @ [Atom (Lit c) Once]) cs)"

definition RegExp_new :: "string \<Rightarrow> regexp_error + regexp" where
  "RegExp_new pattern = parsePattern [] [] pattern"

text \<open>
  \<open>Canonicalize\<close> of the ECMAScript matcher under the flag \<open>i\<close> (without \<open>u\<close>), on code units
  below 256: the upper-case form where it is a single code unit of that range.
\<close>

definition Canonicalize :: "char \<Rightarrow> char" where
  "Canonicalize c =
     (let n = (of_char c :: nat)
      in if (97 \<le> n \<and> n \<le> 122) \<or> (224 \<le> n \<and> n \<le> 254 \<and> n \<noteq> 247) then char_of (n - 32) else c)"

fun atomMatches :: "atom \<Rightarrow> char \<Rightarrow> bool" where
  "atomMatches (Lit c) x = (Canonicalize c = Canonicalize x)"
| "atomMatches AnyChar x = (x \<noteq> LF \<and> x \<noteq> CR)"

text \<open>
  \<open>matchHere items atStart s\<close>: the items match a prefix of \<open>s\<close>, the rest of the input at
  the current position; \<open>atStart\<close> tells whether that position is the start of the input.
\<close>

fun matchHere :: "item list \<Rightarrow> bool \<Rightarrow> string \<Rightarrow> bool" where
  "matchHere [] atStart s = True"
| "matchHere (LineStart # r) atStart s = (atStart \<and> matchHere r atStart s)"
| "matchHere (LineEnd # r) atStart s = (s = [] \<and> matchHere r atStart s)"
| "matchHere (Atom a Once # r) atStart [] = False"
| "matchHere (Atom a Once # r) atStart (x # xs) = (atomMatches a x \<and> matchHere r False xs)"
| "matchHere (Atom a ZeroOrOne # r) atStart [] = matchHere r atStart []"
| "matchHere (Atom a ZeroOrOne # r) atStart (x # xs) =
     ((atomMatches a x \<and> matchHere r False xs) \<or> matchHere r atStart (x # xs))"
| "matchHere (Atom a ZeroOrMore # r) atStart [] = matchHere r atStart []"
| "matchHere (Atom a ZeroOrMore # r) atStart (x # xs) =
     ((atomMatches a x \<and> matchHere (Atom a ZeroOrMore # r) False xs) \<or> matchHere r atStart (x # xs))"
| "matchHere (Atom a OneOrMore # r) atStart [] = False"
| "matchHere (Atom a OneOrMore # r) atStart (x # xs) =
     (atomMatches a x \<and> matchHere (Atom a ZeroOrMore # r) False xs)"

text \<open>
  \<open>regex.test(s)\<close> for a regular expression without the flags \<open>g\<close> and \<open>y\<close>: some
  alternative matches at some position of \<open>s\<close>.
\<close>

fun searchFrom :: "regexp \<Rightarrow> bool \<Rightarrow> string \<Rightarrow> bool" where
  "searchFrom re atStart [] = list_ex (\<lambda>alt. matchHere alt atStart []) re"
| "searchFrom re atStart (x # xs) =
     (list_ex (\<lambda>alt. matchHere alt atStart (x # xs)) re \<or> searchFrom re False xs)"

definition RegExp_test :: "regexp \<Rightarrow> string \<Rightarrow> bool" where
  "RegExp_test re s = searchFrom re True s"

section \<open>\<open>main\<close>\<close>

text \<open>
  The arguments as \<open>minimist\<close> and \<open>parseInt\<close> deliver them: the positional arguments
  \<open>args._\<close>, the directory \<open>args.dir\<close>, and \<open>parseInt(args.max, 10)\<close> and
  \<open>parseInt(args.window, 10)\<close> as integers.
\<close>

record Args =
  arg_positional :: "string list"
  arg_dir :: path
  arg_max :: int
  arg_window :: int

text \<open>
  The world outside the program: the node at the directory given, the content of each file
  (\<open>None\<close> when reading it fails), and the chat completion, which answers a prompt with
  \<open>completion.data.choices[0].message.content\<close> or fails with \<open>err.message\<close>.
\<close>

record World =
  fs_root :: fsnode
  fs_readFile :: "path \<Rightarrow> string option"
  createChatCompletion :: "string \<Rightarrow> string + string"

text \<open>The set \<open>ignoreDirs\<close> that \<open>main\<close> builds.\<close>

definition defaultIgnoreDirs :: "string set" where
  "defaultIgnoreDirs = {''node_modules'', ''vendor'', ''third_party'', ''.git'', ''dist'', ''build'',
     ''tests'', ''test'', ''__tests__''}"

text \<open>The decimal form of a number, as a template literal prints it.\<close>

function showNat :: "nat \<Rightarrow> string" where
  "showNat n = (if n < 10 then [char_of (48 + n)] else showNat (n div 10) @ [char_of (48 + n mod 10)])"
  by pat_completeness auto
termination
  by (relation "measure id") auto

declare showNat.simps [simp del]

text \<open>The header \<open>[${idx+1}] ${res.file}:${res.line}\<close> of a match, \<open>idx\<close> counted from 0.\<close>

definition header :: "nat \<Rightarrow> MatchRecord \<Rightarrow> string" where
  "header idx res = ''['' @ showNat (idx + 1) @ ''] '' @ pathString (file res) @ '':'' @ showNat (line res)"

definition buildPrompt :: "string \<Rightarrow> MatchRecord list \<Rightarrow> string" where
  "buildPrompt query results =
     ''The user asked: '' @ [CHR 0x22] @ query @ [CHR 0x22]
       @ ''. I found the following code snippets and configuration lines in the project:'' @ [LF]
       @ concat (map (\<lambda>(idx, res). [LF] @ header idx res @ [LF] @ snippet res @ [LF])
                     (zip [0..<length results] results))
       @ [LF] @ ''Please summarise what these snippets show about the user's question. Provide a clear, high-level explanation of the relevant logic, configuration or data flow. Do not repeat the code lines verbatim, but refer to them by their index when necessary.''"

text \<open>
  \<open>main\<close>, as the events it causes. \<open>process.exit(1)\<close> ends the run. An error that leaves
  \<open>main\<close> reaches \<open>main().catch\<close>, which prints it and exits with 1; the text printed for the
  error object is abbreviated to its kind.
\<close>

definition main :: "World \<Rightarrow> Args \<Rightarrow> event list" where
  "main world args =
     (let query = trim (join '' '' (arg_positional args))
      in if query = [] then [Stderr ''Please provide a search query.'', Exit 1]
         else
          (let tokens = map escapeRegExp (splitWhitespace query);
               pattern = join ''|'' tokens
           in case RegExp_new pattern of
                Inl err \<Rightarrow> [NewRegExp pattern, Stderr ''SyntaxError'', Exit 1]
              | Inr regex \<Rightarrow>
                 (case walk (arg_dir args) (fs_root world) defaultIgnoreDirs ([], [NewRegExp pattern]) of
                    Inl (err, (fileList, log)) \<Rightarrow> log @ [Stderr ''Error'', Exit 1]
                  | Inr (fileList, log) \<Rightarrow>
                     (case searchFiles (fs_readFile world) fileList (RegExp_test regex)
                             (arg_window args) (arg_max args) of
                        (results, log') \<Rightarrow>
                          if length results = 0 then log @ log' @ [Stdout ''No matches found.'']
                          else
                           (let prompt = buildPrompt query results
                            in case createChatCompletion world prompt of
                                 Inr content \<Rightarrow> log @ log' @ [ChatCompletion prompt, Stdout (trim content)]
                               | Inl message \<Rightarrow>
                                   log @ log' @ [ChatCompletion prompt,
                                     Stderr (''Error calling OpenAI API: '' @ message),
                                     Stdout ''Snippets:'']
                                   @ map (\<lambda>(idx, res). Stdout (header idx res))
                                         (zip [0..<length results] results))))))"

section \<open>Notions used to state the properties\<close>

text \<open>
  The number of \<open>results.push\<close> calls among some events: the length of \<open>results\<close> at the
  moment after them.
\<close>

fun isPush :: "event \<Rightarrow> bool" where
  "isPush (Push f n) = True"
| "isPush e = False"

definition pushCount :: "event list \<Rightarrow> nat" where
  "pushCount log = length (filter isPush log)"

text \<open>Every event of the log happens while fewer than \<open>m\<close> records have been pushed.\<close>

definition belowCap :: "int \<Rightarrow> event list \<Rightarrow> bool" where
  "belowCap m log = (\<forall>k<length log. int (pushCount (take k log)) < m)"

text \<open>
  The matches of one file and of a sequence of files when nothing stops the search: one
  record for every line that satisfies the predicate, in the order of the files and of
  the lines. An unreadable file has none.
\<close>

definition fileMatches :: "(path \<Rightarrow> string option) \<Rightarrow> (string \<Rightarrow> bool) \<Rightarrow> int \<Rightarrow> path \<Rightarrow> MatchRecord list" where
  "fileMatches readFile regex windowLines f =
     (case readFile f of
        None \<Rightarrow> []
      | Some content \<Rightarrow>
          map (\<lambda>i. \<lparr>file = f, line = i + 1, snippet = snippetAt (splitLines content) i windowLines\<rparr>)
              (filter (\<lambda>i. regex (splitLines content ! i)) [0..<length (splitLines content)]))"

definition allMatches :: "(path \<Rightarrow> string option) \<Rightarrow> (string \<Rightarrow> bool) \<Rightarrow> int \<Rightarrow> path list \<Rightarrow> MatchRecord list" where
  "allMatches readFile regex windowLines files = concat (map (fileMatches readFile regex windowLines) files)"

text \<open>
  The window as the specification words it, for a 1-based line number \<open>i\<close>: the lines
  \<open>max(1, i - w)\<close> through \<open>min(N, i + w)\<close>, both included, in their order.
\<close>

definition windowSpec :: "string list \<Rightarrow> nat \<Rightarrow> nat \<Rightarrow> string list" where
  "windowSpec lines i w = map (\<lambda>j. lines ! (j - 1)) [max 1 (i - w) ..< Suc (min (length lines) (i + w))]"

text \<open>
  Every directory that the traversal enters can be listed: the node itself is a directory,
  and so is every directory below it that is not reached through an ignored name.
\<close>

fun readable :: "string set \<Rightarrow> fsnode \<Rightarrow> bool"
and readableEntries :: "string set \<Rightarrow> (string \<times> fsnode) list \<Rightarrow> bool"
where
  "readable ignoreDirs (Directory entries) = readableEntries ignoreDirs entries"
| "readable ignoreDirs node = False"
| "readableEntries ignoreDirs [] = True"
| "readableEntries ignoreDirs ((name, node) # rest) =
     ((if isDirectory node \<and> name \<notin> ignoreDirs then readable ignoreDirs node else True)
      \<and> readableEntries ignoreDirs rest)"

text \<open>
  The regular files that the traversal of \<open>node\<close> at \<open>dir\<close> comes to, in its order, each
  with its path, its name and its node: the entries of the directory and of the
  directories below it whose names are not in the ignore set, up to the first directory
  that cannot be listed.
\<close>

fun reachedFiles :: "path \<Rightarrow> fsnode \<Rightarrow> string set \<Rightarrow> (path \<times> string \<times> fsnode) list"
and reachedInEntries :: "path \<Rightarrow> (string \<times> fsnode) list \<Rightarrow> string set \<Rightarrow> (path \<times> string \<times> fsnode) list"
where
  "reachedFiles dir (Directory entries) ignoreDirs = reachedInEntries dir entries ignoreDirs"
| "reachedFiles dir node ignoreDirs = []"
| "reachedInEntries dir [] ignoreDirs = []"
| "reachedInEntries dir ((name, node) # rest) ignoreDirs =
     (if isDirectory node then
        (if name \<in> ignoreDirs then reachedInEntries dir rest ignoreDirs
         else reachedFiles (dir @ [name]) node ignoreDirs
                @ (if readable ignoreDirs node then reachedInEntries dir rest ignoreDirs else []))
      else if isFile node then (dir @ [name], name, node) # reachedInEntries dir rest ignoreDirs
      else reachedInEntries dir rest ignoreDirs)"

text \<open>
  The file acceptance policy in the words of the specification: a file is accepted when its
  lower-cased extension is in the allow-list, or else when \<open>stat\<close> succeeds and reports a
  size below 1 MiB. \<open>statted\<close> tells the files the policy needs \<open>stat\<close> for.
\<close>

definition allowedExtension :: "string \<Rightarrow> bool" where
  "allowedExtension name = (toLowerCase (extname name) \<in> set allowedExt)"

definition accepted :: "path \<times> string \<times> fsnode \<Rightarrow> bool" where
  "accepted e = (case e of (p, name, node) \<Rightarrow>
     allowedExtension name \<or> (case statSize node of Some size' \<Rightarrow> size' < 1024 * 1024 | None \<Rightarrow> False))"

definition statted :: "path \<times> string \<times> fsnode \<Rightarrow> bool" where
  "statted e = (case e of (p, name, node) \<Rightarrow> \<not> allowedExtension name)"

fun isStat :: "event \<Rightarrow> bool" where
  "isStat (Stat p) = True"
| "isStat e = False"

text \<open>
  \<open>walkResult st reached st'\<close>: from \<open>st\<close> to \<open>st'\<close> the accepted files among \<open>reached\<close> have
  been appended to the file list, and \<open>stat\<close> has been called for those of \<open>reached\<close> whose
  extension is not in the allow-list, in this order.
\<close>

definition walkResult :: "walk_state \<Rightarrow> (path \<times> string \<times> fsnode) list \<Rightarrow> walk_state \<Rightarrow> bool" where
  "walkResult st reached st' =
     (fst st' = fst st @ map fst (filter accepted reached)
      \<and> filter isStat (snd st') = filter isStat (snd st) @ map (\<lambda>e. Stat (fst e)) (filter statted reached))"

text \<open>
  \<open>walkedBelow dir ignoreDirs st st'\<close>: from \<open>st\<close> to \<open>st'\<close> files and events have only been
  appended; every new file lies below \<open>dir\<close> and none of the directories between \<open>dir\<close> and
  the file has a name of the ignore set; every directory listed is \<open>dir\<close> or lies below it
  with no name of the ignore set on the way.
\<close>

definition walkedBelow :: "path \<Rightarrow> string set \<Rightarrow> walk_state \<Rightarrow> walk_state \<Rightarrow> bool" where
  "walkedBelow dir ignoreDirs st st' =
     (\<exists>newFiles newLog.
        fst st' = fst st @ newFiles \<and> snd st' = snd st @ newLog
      \<and> (\<forall>p\<in>set newFiles. \<exists>rel. p = dir @ rel \<and> rel \<noteq> [] \<and> set (butlast rel) \<inter> ignoreDirs = {})
      \<and> (\<forall>d. ReadDir d \<in> set newLog \<longrightarrow> (\<exists>rel. d = dir @ rel \<and> set rel \<inter> ignoreDirs = {})))"

text \<open>
  The alternative that matches the characters of \<open>t\<close> one after the other, each as itself:
  no dot, no assertion, no quantifier.
\<close>

definition literally :: "string \<Rightarrow> alternative" where
  "literally t = map (\<lambda>c. Atom (Lit c) Once) t"



section \<open>The cap on the number of results\<close>

lemma belowCap_snoc:
  assumes "belowCap m log" and "int (pushCount log) < m"
  shows "belowCap m (log @ [e])"
  unfolding belowCap_def
proof (intro allI impI)
  fix k assume k: "k < length (log @ [e])"
  show "int (pushCount (take k (log @ [e]))) < m"
  proof (cases "k < length log")
    case True
    with assms(1) show ?thesis by (simp add: belowCap_def)
  next
    case False
    with k have "k = length log" by simp
    with assms(2) show ?thesis by simp
  qed
qed

lemma scanLines_cap:
  assumes "pushCount log = length results" and "belowCap m log" and "int (length results) < m"
  shows "pushCount (snd (scanLines f lines regex w m i (results, log)))
           = length (fst (scanLines f lines regex w m i (results, log)))
       \<and> belowCap m (snd (scanLines f lines regex w m i (results, log)))
       \<and> int (length (fst (scanLines f lines regex w m i (results, log)))) \<le> m"
  using assms
proof (induction f lines regex w m i "(results, log)" arbitrary: results log rule: scanLines.induct)
  case (1 f lines regex w m i results log)
  show ?case
  proof (cases "i < length lines")
    case False
    with "1.prems" show ?thesis by (simp add: scanLines.simps)
  next
    case inb: True
    show ?thesis
    proof (cases "regex (lines ! i)")
      case False
      have "belowCap m (log @ [TestLine f i])"
        using "1.prems" by (intro belowCap_snoc) simp_all
      moreover have "pushCount (log @ [TestLine f i]) = length results"
        using "1.prems" by (simp add: pushCount_def)
      moreover from inb False
      have "scanLines f lines regex w m i (results, log)
              = scanLines f lines regex w m (i + 1) (results, log @ [TestLine f i])"
        by (subst scanLines.simps) simp
      ultimately show ?thesis
        using "1.hyps"(2)[OF inb False] "1.prems"(3) by simp
    next
      case hit: True
      let ?r = "results @ [\<lparr>file = f, line = i + 1, snippet = snippetAt lines i w\<rparr>]"
      let ?l = "log @ [TestLine f i, Push f (i + 1)]"
      have pc: "pushCount ?l = length ?r"
        using "1.prems"(1) by (simp add: pushCount_def)
      have b1: "belowCap m (log @ [TestLine f i])"
        using "1.prems" by (intro belowCap_snoc) simp_all
      have "belowCap m ((log @ [TestLine f i]) @ [Push f (i + 1)])"
        using b1 "1.prems" by (intro belowCap_snoc) (simp_all add: pushCount_def)
      then have bc: "belowCap m ?l" by simp
      have le: "int (length ?r) \<le> m" using "1.prems"(3) by simp
      show ?thesis
      proof (cases "m \<le> int (length ?r)")
        case True
        with inb hit have "scanLines f lines regex w m i (results, log) = (?r, ?l)"
          by (subst scanLines.simps) (simp add: Let_def)
        with pc bc le show ?thesis by simp
      next
        case False
        then have lt: "int (length ?r) < m" by simp
        from inb hit False
        have "scanLines f lines regex w m i (results, log) = scanLines f lines regex w m (i + 1) (?r, ?l)"
          by (subst scanLines.simps) (simp add: Let_def)
        with "1.hyps"(1)[OF inb hit refl refl False pc bc lt] show ?thesis by simp
      qed
    qed
  qed
qed

lemma searchLoop_cap:
  assumes "pushCount log = length results" and "belowCap m log" and "int (length results) \<le> m"
  shows "pushCount (snd (searchLoop rf regex w m files (results, log)))
           = length (fst (searchLoop rf regex w m files (results, log)))
       \<and> belowCap m (snd (searchLoop rf regex w m files (results, log)))
       \<and> int (length (fst (searchLoop rf regex w m files (results, log)))) \<le> m"
  using assms
proof (induction files arbitrary: results log)
  case Nil
  then show ?case by simp
next
  case (Cons f fs)
  show ?case
  proof (cases "m \<le> int (length results)")
    case True
    with Cons.prems show ?thesis by simp
  next
    case False
    then have lt: "int (length results) < m" by simp
    have pc: "pushCount (log @ [ReadFile f]) = length results"
      using Cons.prems by (simp add: pushCount_def)
    have bc: "belowCap m (log @ [ReadFile f])"
      using Cons.prems lt by (intro belowCap_snoc) simp_all
    show ?thesis
    proof (cases "rf f")
      case None
      with False Cons.IH[OF pc bc Cons.prems(3)] show ?thesis by simp
    next
      case (Some content)
      obtain r' l' where sc:
        "scanLines f (splitLines content) regex w m 0 (results, log @ [ReadFile f]) = (r', l')"
        by (cases "scanLines f (splitLines content) regex w m 0 (results, log @ [ReadFile f])")
      from scanLines_cap[OF pc bc lt, of f "splitLines content" regex w 0] sc
      have "pushCount l' = length r'" "belowCap m l'" "int (length r') \<le> m" by simp_all
      from Cons.IH[OF this] Some False sc show ?thesis by simp
    qed
  qed
qed

text \<open>
  C1. For every file sequence, predicate and window, and every \<open>maxResults > 0\<close>,
  \<open>searchFiles\<close> returns at most \<open>maxResults\<close> records; the pushes among its events are
  the records it returns; and every event (the read of a file, the test of a line, a push)
  happens while fewer than \<open>maxResults\<close> records have been pushed: once the count reaches
  \<open>maxResults\<close>, no further line is tested and no further file is read.
\<close>

theorem searchFiles_stops_at_cap:
  assumes "0 < maxResults"
  shows "int (length (fst (searchFiles readFile files regex windowLines maxResults))) \<le> maxResults
       \<and> pushCount (snd (searchFiles readFile files regex windowLines maxResults))
           = length (fst (searchFiles readFile files regex windowLines maxResults))
       \<and> (\<forall>k < length (snd (searchFiles readFile files regex windowLines maxResults)).
            int (pushCount (take k (snd (searchFiles readFile files regex windowLines maxResults))))
              < maxResults)"
proof -
  have "pushCount [] = length ([] :: MatchRecord list)" by (simp add: pushCount_def)
  moreover have "belowCap maxResults []" by (simp add: belowCap_def)
  moreover have "int (length ([] :: MatchRecord list)) \<le> maxResults" using assms by simp
  ultimately show ?thesis
    using searchLoop_cap[of "[]" "[]" maxResults readFile regex windowLines files]
    unfolding searchFiles_def belowCap_def by blast
qed

theorem searchFiles_stops_at_cap_witness:
  "(0::int) < 1
   \<and> searchFiles (\<lambda>p. Some [CHR ''x'', LF, CHR ''x'']) [[''a.py''], [''b.py'']] (\<lambda>s. True) 0 1
       = ([\<lparr>file = [''a.py''], line = 1, snippet = ''x''\<rparr>],
          [ReadFile [''a.py''], TestLine [''a.py''] 0, Push [''a.py''] 1])
   \<and> int (length (fst (searchFiles (\<lambda>p. Some [CHR ''x'', LF, CHR ''x'']) [[''a.py''], [''b.py'']]
         (\<lambda>s. True) 0 1))) \<le> 1
   \<and> int (pushCount (take 2 (snd (searchFiles (\<lambda>p. Some [CHR ''x'', LF, CHR ''x''])
         [[''a.py''], [''b.py'']] (\<lambda>s. True) 0 1)))) < 1"
proof -
  let ?S = "searchFiles (\<lambda>p. Some [CHR ''x'', LF, CHR ''x'']) [[''a.py''], [''b.py'']] (\<lambda>s. True) 0 1"
  have ev: "?S = ([\<lparr>file = [''a.py''], line = 1, snippet = ''x''\<rparr>],
                  [ReadFile [''a.py''], TestLine [''a.py''] 0, Push [''a.py''] 1])"
    by code_simp
  have len: "(2::nat) < length (snd ?S)"
    unfolding ev by simp
  have pos: "(0::int) < 1" by simp
  note inst = searchFiles_stops_at_cap [OF pos, of "\<lambda>p. Some [CHR ''x'', LF, CHR ''x'']"
      "[[''a.py''], [''b.py'']]" "\<lambda>s. True" 0]
  from inst have "int (length (fst ?S)) \<le> 1" by (rule conjunct1)
  moreover from inst len have "int (pushCount (take 2 (snd ?S))) < 1" by blast
  ultimately show ?thesis using ev pos by blast
qed

section \<open>What \<open>searchFiles\<close> returns\<close>

lemma scanLines_results:
  assumes "int (length results) < m"
  shows "fst (scanLines f lines regex w m i (results, log))
         = results @ take (nat m - length results)
             (map (\<lambda>j. \<lparr>file = f, line = j + 1, snippet = snippetAt lines j w\<rparr>)
                  (filter (\<lambda>j. regex (lines ! j)) [i..<length lines]))"
  using assms
proof (induction f lines regex w m i "(results, log)" arbitrary: results log rule: scanLines.induct)
  case (1 f lines regex w m i results log)
  show ?case
  proof (cases "i < length lines")
    case False
    then show ?thesis by (subst scanLines.simps) simp
  next
    case inb: True
    then have upt: "[i..<length lines] = i # [i + 1..<length lines]"
      by (simp add: upt_conv_Cons)
    show ?thesis
    proof (cases "regex (lines ! i)")
      case False
      from inb False
      have "scanLines f lines regex w m i (results, log)
              = scanLines f lines regex w m (i + 1) (results, log @ [TestLine f i])"
        by (subst scanLines.simps) simp
      with "1.hyps"(2)[OF inb False "1.prems"] upt False show ?thesis by simp
    next
      case hit: True
      let ?rec = "\<lparr>file = f, line = i + 1, snippet = snippetAt lines i w\<rparr>"
      let ?r = "results @ [?rec]"
      let ?l = "log @ [TestLine f i, Push f (i + 1)]"
      from "1.prems" have pos: "0 < nat m - length results" by linarith
      show ?thesis
      proof (cases "m \<le> int (length ?r)")
        case True
        with inb hit have "scanLines f lines regex w m i (results, log) = (?r, ?l)"
          by (subst scanLines.simps) (simp add: Let_def)
        moreover from True "1.prems" have "nat m - length results = Suc 0" by simp
        ultimately show ?thesis using upt hit by simp
      next
        case False
        then have lt: "int (length ?r) < m" by simp
        from inb hit False
        have "scanLines f lines regex w m i (results, log) = scanLines f lines regex w m (i + 1) (?r, ?l)"
          by (subst scanLines.simps) (simp add: Let_def)
        moreover have "nat m - length results = Suc (nat m - length ?r)"
          using lt by simp
        ultimately show ?thesis
          using "1.hyps"(1)[OF inb hit refl refl False lt] upt hit by simp
      qed
    qed
  qed
qed

lemma searchLoop_results:
  "fst (searchLoop rf regex w m files (results, log))
     = results @ take (nat m - length results) (allMatches rf regex w files)"
proof (induction files arbitrary: results log)
  case Nil
  show ?case by (simp add: allMatches_def)
next
  case (Cons f fs)
  show ?case
  proof (cases "m \<le> int (length results)")
    case True
    then have "nat m - length results = 0" by simp
    with True show ?thesis by simp
  next
    case False
    then have lt: "int (length results) < m" by simp
    show ?thesis
    proof (cases "rf f")
      case None
      with False Cons.IH show ?thesis by (simp add: allMatches_def fileMatches_def)
    next
      case (Some content)
      let ?fm = "fileMatches rf regex w f"
      obtain r' l' where sc:
        "scanLines f (splitLines content) regex w m 0 (results, log @ [ReadFile f]) = (r', l')"
        by (cases "scanLines f (splitLines content) regex w m 0 (results, log @ [ReadFile f])")
      from scanLines_results[OF lt, of f "splitLines content" regex w 0 "log @ [ReadFile f]"] sc Some
      have r': "r' = results @ take (nat m - length results) ?fm"
        by (simp add: fileMatches_def)
      have "fst (searchLoop rf regex w m (f # fs) (results, log)) = fst (searchLoop rf regex w m fs (r', l'))"
        using False Some sc by simp
      also have "\<dots> = r' @ take (nat m - length r') (allMatches rf regex w fs)"
        by (rule Cons.IH)
      also have "\<dots> = results @ take (nat m - length results) (?fm @ allMatches rf regex w fs)"
        unfolding r' by (simp add: min_def)
      finally show ?thesis by (simp add: allMatches_def)
    qed
  qed
qed

lemma searchFiles_results:
  "fst (searchFiles rf files regex w m) = take (nat m) (allMatches rf regex w files)"
  by (simp add: searchFiles_def searchLoop_results)

lemma slice_window:
  assumes "s \<le> e" and "e \<le> length xs"
  shows "take (e - s) (drop s xs) = map (\<lambda>j. xs ! (j - 1)) [Suc s..<Suc e]"
proof (rule nth_equalityI)
  show "length (take (e - s) (drop s xs)) = length (map (\<lambda>j. xs ! (j - 1)) [Suc s..<Suc e])"
    using assms by (simp add: min_def) arith
next
  fix k assume "k < length (take (e - s) (drop s xs))"
  then have k: "k < e - s" by simp
  then show "take (e - s) (drop s xs) ! k = map (\<lambda>j. xs ! (j - 1)) [Suc s..<Suc e] ! k"
    using assms by (simp del: upt_Suc)
qed

lemma slice_nat:
  assumes "s \<le> e" and "e \<le> length xs"
  shows "slice xs (int s) (int e) = take (e - s) (drop s xs)"
proof -
  have "min (int s) (int (length xs)) = int s" using assms by simp
  moreover have "min (int e) (int (length xs)) = int e" using assms by simp
  moreover have "nat (int e - int s) = e - s" by simp
  ultimately show ?thesis by (simp add: slice_def Let_def)
qed

lemma snippetAt_windowSpec:
  assumes "0 \<le> w" and "i < length lines"
  shows "snippetAt lines i w = join [LF] (windowSpec lines (i + 1) (nat w))"
proof -
  let ?s = "i - nat w" and ?e = "min (length lines) (i + nat w + 1)"
  have s: "max 0 (int i - w) = int ?s" using assms by (simp add: max_def)
  have e: "min (int (length lines)) (int i + w + 1) = int ?e" using assms unfolding min_def by auto
  have se: "?s \<le> ?e" "?e \<le> length lines" using assms by (auto simp: min_def)
  have "slice lines (int ?s) (int ?e) = take (?e - ?s) (drop ?s lines)"
    by (rule slice_nat[OF se])
  also have "\<dots> = map (\<lambda>j. lines ! (j - 1)) [Suc ?s..<Suc ?e]"
    by (rule slice_window[OF se])
  also have "\<dots> = windowSpec lines (i + 1) (nat w)"
  proof -
    have "max 1 (i + 1 - nat w) = Suc ?s" by arith
    moreover have "min (length lines) (i + 1 + nat w) = ?e" by (simp add: add.commute add.left_commute)
    ultimately show ?thesis unfolding windowSpec_def by (simp only:)
  qed
  finally show ?thesis by (simp add: snippetAt_def s e Let_def)
qed

lemma filter_upt_index:
  assumes "j < n" and "P j"
  shows "length (filter P [0..<j]) < length (filter P [0..<n])"
    and "filter P [0..<n] ! length (filter P [0..<j]) = j"
proof -
  have "[0..<n] = [0..<j] @ j # [Suc j..<n]"
    using assms(1) upt_add_eq_append[of 0 j "n - j"] by (simp add: upt_conv_Cons)
  then have f: "filter P [0..<n] = filter P [0..<j] @ j # filter P [Suc j..<n]"
    using assms(2) by simp
  show "length (filter P [0..<j]) < length (filter P [0..<n])" by (simp add: f)
  show "filter P [0..<n] ! length (filter P [0..<j]) = j" by (simp add: f nth_append)
qed

lemma filter_take_length:
  assumes "j \<le> length xs"
  shows "length (filter P (take j xs)) = length (filter (\<lambda>k. P (xs ! k)) [0..<j])"
proof -
  have "take j xs = map (\<lambda>k. xs ! k) [0..<j]"
    using assms by (intro nth_equalityI) simp_all
  then show ?thesis by (simp add: filter_map comp_def)
qed

text \<open>
  C2, as stated, fails: with \<open>maxResults = 1\<close> and a file whose two lines both satisfy the
  predicate, the second line gets no record.
\<close>

theorem searchFiles_window_counterexample:
  "(0::int) \<le> 0 \<and> (0::int) < 1
   \<and> splitLines [CHR ''x'', LF, CHR ''x''] = [''x'', ''x'']
   \<and> (\<lambda>s. s = ''x'') (splitLines [CHR ''x'', LF, CHR ''x''] ! 1)
   \<and> fst (searchFiles (\<lambda>p. Some [CHR ''x'', LF, CHR ''x'']) [[''a.py'']] (\<lambda>s. s = ''x'') 0 1)
       = [\<lparr>file = [''a.py''], line = 1, snippet = ''x''\<rparr>]
   \<and> \<lparr>file = [''a.py''], line = 2, snippet = ''x''\<rparr>
       \<notin> set (fst (searchFiles (\<lambda>p. Some [CHR ''x'', LF, CHR ''x'']) [[''a.py'']] (\<lambda>s. s = ''x'') 0 1))"
proof -
  have sp: "splitLines [CHR ''x'', LF, CHR ''x''] = [''x'', ''x'']" by code_simp
  have ev: "fst (searchFiles (\<lambda>p. Some [CHR ''x'', LF, CHR ''x'']) [[''a.py'']] (\<lambda>s. s = ''x'') 0 1)
       = [\<lparr>file = [''a.py''], line = 1, snippet = ''x''\<rparr>]" by code_simp
  show ?thesis unfolding ev sp by simp
qed

text \<open>
  C2, amended. For every \<open>windowLines = w \<ge> 0\<close>, every readable file \<open>f\<close> of \<open>N\<close> lines in the
  sequence and every 1-based line number \<open>i\<close> whose line satisfies the predicate: when the
  matches in the files before \<open>f\<close> and in the lines before \<open>i\<close> number fewer than
  \<open>maxResults\<close>, the result holds, at that position, the record of \<open>f\<close> with line number
  \<open>i\<close> whose snippet is the lines \<open>max(1, i - w)\<close> through \<open>min(N, i + w)\<close> joined with
  line feeds.
\<close>

theorem searchFiles_window:
  assumes "0 \<le> windowLines"
    and "readFile f = Some content"
    and "1 \<le> i" and "i \<le> length (splitLines content)"
    and "regex (splitLines content ! (i - 1))"
    and "int (length (allMatches readFile regex windowLines pre)
              + length (filter regex (take (i - 1) (splitLines content)))) < maxResults"
  shows "length (allMatches readFile regex windowLines pre)
           + length (filter regex (take (i - 1) (splitLines content)))
         < length (fst (searchFiles readFile (pre @ f # post) regex windowLines maxResults))
       \<and> fst (searchFiles readFile (pre @ f # post) regex windowLines maxResults)
           ! (length (allMatches readFile regex windowLines pre)
              + length (filter regex (take (i - 1) (splitLines content))))
         = \<lparr>file = f, line = i,
            snippet = join [LF] (windowSpec (splitLines content) i (nat windowLines))\<rparr>"
proof -
  let ?lines = "splitLines content"
  let ?P = "\<lambda>k. regex (?lines ! k)"
  let ?rec = "\<lambda>k. \<lparr>file = f, line = k + 1, snippet = snippetAt ?lines k windowLines\<rparr>"
  let ?a = "allMatches readFile regex windowLines pre"
  let ?fm = "fileMatches readFile regex windowLines f"
  let ?b = "allMatches readFile regex windowLines post"
  let ?q = "length (filter ?P [0..<i - 1])"
  have j: "i - 1 < length ?lines" using assms(3,4) by simp
  have cnt: "length (filter regex (take (i - 1) ?lines)) = ?q"
    using j by (intro filter_take_length) simp
  have fm: "?fm = map ?rec (filter ?P [0..<length ?lines])"
    using assms(2) by (simp add: fileMatches_def)
  from filter_upt_index[of "i - 1" "length ?lines" ?P, OF j assms(5)]
  have q: "?q < length ?fm" and at: "?fm ! ?q = ?rec (i - 1)"
    by (simp_all add: fm)
  have all: "allMatches readFile regex windowLines (pre @ f # post) = ?a @ ?fm @ ?b"
    by (simp add: allMatches_def)
  have res: "fst (searchFiles readFile (pre @ f # post) regex windowLines maxResults)
              = take (nat maxResults) (?a @ ?fm @ ?b)"
    by (simp add: searchFiles_results all)
  have lt: "length ?a + ?q < nat maxResults" using assms(6) cnt by linarith
  have inb: "length ?a + ?q < length (?a @ ?fm @ ?b)" using q by simp
  have "take (nat maxResults) (?a @ ?fm @ ?b) ! (length ?a + ?q) = (?a @ ?fm @ ?b) ! (length ?a + ?q)"
    using lt by (rule nth_take)
  also have "\<dots> = ?fm ! ?q" using q by (simp add: nth_append)
  also have "\<dots> = \<lparr>file = f, line = i, snippet = join [LF] (windowSpec ?lines i (nat windowLines))\<rparr>"
    using at snippetAt_windowSpec[OF assms(1) j] assms(3) by simp
  finally have val: "take (nat maxResults) (?a @ ?fm @ ?b) ! (length ?a + ?q)
      = \<lparr>file = f, line = i, snippet = join [LF] (windowSpec ?lines i (nat windowLines))\<rparr>" .
  have "length ?a + ?q < length (take (nat maxResults) (?a @ ?fm @ ?b))"
    using lt inb by (simp only: length_take min_less_iff_conj)
  with val show ?thesis unfolding res cnt by simp
qed

theorem searchFiles_window_witness:
  "(0::int) \<le> 1
   \<and> (\<lambda>p. Some [CHR ''a'', LF, CHR ''f'', CHR ''o'', CHR ''o'', LF, CHR ''b'']) [''a.py'']
       = Some [CHR ''a'', LF, CHR ''f'', CHR ''o'', CHR ''o'', LF, CHR ''b'']
   \<and> splitLines [CHR ''a'', LF, CHR ''f'', CHR ''o'', CHR ''o'', LF, CHR ''b''] = [''a'', ''foo'', ''b'']
   \<and> fst (searchFiles (\<lambda>p. Some [CHR ''a'', LF, CHR ''f'', CHR ''o'', CHR ''o'', LF, CHR ''b''])
            [[''a.py'']] (\<lambda>s. s = ''foo'') 1 5) ! 0
       = \<lparr>file = [''a.py''], line = 2,
          snippet = [CHR ''a'', LF, CHR ''f'', CHR ''o'', CHR ''o'', LF, CHR ''b'']\<rparr>"
proof -
  let ?c = "[CHR ''a'', LF, CHR ''f'', CHR ''o'', CHR ''o'', LF, CHR ''b'']"
  let ?rf = "\<lambda>p :: path. Some ?c"
  let ?re = "\<lambda>s. s = ''foo''"
  have sp: "splitLines ?c = [''a'', ''foo'', ''b'']" by code_simp
  have h1: "(0::int) \<le> 1" by simp
  have h2: "?rf [''a.py''] = Some ?c" by simp
  have h3: "(1::nat) \<le> 2" by simp
  have h4: "2 \<le> length (splitLines ?c)" unfolding sp by simp
  have h5: "?re (splitLines ?c ! (2 - 1))" unfolding sp by simp
  have h6: "int (length (allMatches ?rf ?re 1 []) + length (filter ?re (take (2 - 1) (splitLines ?c)))) < 5"
    unfolding sp by (simp add: allMatches_def)
  have k: "length (allMatches ?rf ?re 1 []) + length (filter ?re (take (2 - 1) (splitLines ?c))) = 0"
    unfolding sp by (simp add: allMatches_def)
  have ws: "join [LF] (windowSpec (splitLines ?c) 2 (nat 1)) = ?c"
    unfolding sp by code_simp
  note inst = searchFiles_window [where windowLines = 1 and readFile = "?rf" and f = "[''a.py'']"
      and content = "?c" and i = 2 and regex = "?re" and pre = "[]" and post = "[]"
      and maxResults = 5]
  from inst [OF h1 h2 h3 h4 h5 h6]
  have "fst (searchFiles ?rf [[''a.py'']] ?re 1 5) ! 0
          = \<lparr>file = [''a.py''], line = 2, snippet = ?c\<rparr>"
    unfolding k ws by simp
  with sp show ?thesis by simp
qed

section \<open>What \<open>walk\<close> returns\<close>

lemmas walk_eval = visitFile_def extname_def toLowerCase_def toLowerCaseChar_def allowedExt_def
  char_of_eq_iff Let_def finalState_def

lemma finalState_simps [simp]:
  "finalState (Inl (err, st)) = st" "finalState (Inr st) = st"
  by (simp_all add: finalState_def)

lemma walkResult_refl: "walkResult st [] st"
  by (simp add: walkResult_def)

lemma walkResult_trans:
  "walkResult st xs st' \<Longrightarrow> walkResult st' ys st'' \<Longrightarrow> walkResult st (xs @ ys) st''"
  by (simp add: walkResult_def)

lemma walkResult_visitFile:
  "isFile node \<Longrightarrow> walkResult st [(p, name, node)] (visitFile p name node st)"
  by (cases st) (auto simp: walkResult_def visitFile_def accepted_def statted_def allowedExtension_def
        Let_def split: option.splits)

lemma walkResult_ReadDir:
  "walkResult (fl, log @ [ReadDir d]) xs st' \<Longrightarrow> walkResult (fl, log) xs st'"
  by (simp add: walkResult_def)

lemma walk_reached:
  "walkResult st (reachedFiles dir node ign) (finalState (walk dir node ign st))
     \<and> (isl (walk dir node ign st) \<longleftrightarrow> \<not> readable ign node)"
  "walkResult st (reachedInEntries dir es ign) (finalState (walkEntries dir es ign st))
     \<and> (isl (walkEntries dir es ign st) \<longleftrightarrow> \<not> readableEntries ign es)"
proof (induction dir node ign st and dir es ign st rule: walk_walkEntries.induct)
  case (1 dir entries ignoreDirs fileList log)
  then show ?case by (auto intro: walkResult_ReadDir)
next
  case (4 dir name node rest ignoreDirs st)
  let ?p = "dir @ [name]"
  show ?case
  proof (cases "isDirectory node")
    case dirT: True
    show ?thesis
    proof (cases "name \<in> ignoreDirs")
      case True
      with dirT "4.IH"(1) show ?thesis by simp
    next
      case False
      note ih2 = "4.IH"(2)[OF refl dirT False]
      show ?thesis
      proof (cases "walk ?p node ignoreDirs st")
        case (Inl e)
        obtain err st1 where e: "e = (err, st1)" by (cases e)
        from ih2 Inl e have r1: "walkResult st (reachedFiles ?p node ignoreDirs) st1"
          and nr: "\<not> readable ignoreDirs node" by simp_all
        have w: "walkEntries dir ((name, node) # rest) ignoreDirs st = Inl (err, st1)"
          using dirT False Inl e by simp
        have "reachedInEntries dir ((name, node) # rest) ignoreDirs = reachedFiles ?p node ignoreDirs"
          using dirT False nr by simp
        with r1 w nr dirT False show ?thesis by simp
      next
        case (Inr st1)
        from ih2 Inr have r1: "walkResult st (reachedFiles ?p node ignoreDirs) st1"
          and rd: "readable ignoreDirs node" by simp_all
        from "4.IH"(3)[OF refl dirT False Inr]
        have r2: "walkResult st1 (reachedInEntries dir rest ignoreDirs)
                    (finalState (walkEntries dir rest ignoreDirs st1))"
          and l2: "isl (walkEntries dir rest ignoreDirs st1) \<longleftrightarrow> \<not> readableEntries ignoreDirs rest"
          by simp_all
        have w: "walkEntries dir ((name, node) # rest) ignoreDirs st = walkEntries dir rest ignoreDirs st1"
          using dirT False Inr by simp
        have "reachedInEntries dir ((name, node) # rest) ignoreDirs
                = reachedFiles ?p node ignoreDirs @ reachedInEntries dir rest ignoreDirs"
          using dirT False rd by simp
        with walkResult_trans[OF r1 r2] l2 w rd dirT False show ?thesis by simp
      qed
    qed
  next
    case dirF: False
    show ?thesis
    proof (cases "isFile node")
      case True
      from "4.IH"(4)[OF refl dirF True]
      have r2: "walkResult (visitFile ?p name node st) (reachedInEntries dir rest ignoreDirs)
                  (finalState (walkEntries dir rest ignoreDirs (visitFile ?p name node st)))"
        and l2: "isl (walkEntries dir rest ignoreDirs (visitFile ?p name node st))
                   \<longleftrightarrow> \<not> readableEntries ignoreDirs rest"
        by simp_all
      from walkResult_trans[OF walkResult_visitFile[OF True] r2] l2 dirF True
      show ?thesis by simp
    next
      case False
      with dirF "4.IH"(5) show ?thesis by simp
    qed
  qed
qed (simp_all add: walkResult_def)

lemma walkedBelow_refl: "walkedBelow dir ign st st"
  by (simp add: walkedBelow_def)

lemma walkedBelow_trans:
  assumes "walkedBelow dir ign st st'" and "walkedBelow dir ign st' st''"
  shows "walkedBelow dir ign st st''"
proof -
  from assms(1) obtain nf nl where 1: "fst st' = fst st @ nf" "snd st' = snd st @ nl"
    "\<forall>p\<in>set nf. \<exists>rel. p = dir @ rel \<and> rel \<noteq> [] \<and> set (butlast rel) \<inter> ign = {}"
    "\<forall>d. ReadDir d \<in> set nl \<longrightarrow> (\<exists>rel. d = dir @ rel \<and> set rel \<inter> ign = {})"
    unfolding walkedBelow_def by blast
  from assms(2) obtain nf' nl' where 2: "fst st'' = fst st' @ nf'" "snd st'' = snd st' @ nl'"
    "\<forall>p\<in>set nf'. \<exists>rel. p = dir @ rel \<and> rel \<noteq> [] \<and> set (butlast rel) \<inter> ign = {}"
    "\<forall>d. ReadDir d \<in> set nl' \<longrightarrow> (\<exists>rel. d = dir @ rel \<and> set rel \<inter> ign = {})"
    unfolding walkedBelow_def by blast
  have "fst st'' = fst st @ (nf @ nf')" "snd st'' = snd st @ (nl @ nl')"
    using 1(1,2) 2(1,2) by simp_all
  moreover have "\<forall>p\<in>set (nf @ nf'). \<exists>rel. p = dir @ rel \<and> rel \<noteq> [] \<and> set (butlast rel) \<inter> ign = {}"
    using 1(3) 2(3) by auto
  moreover have "\<forall>d. ReadDir d \<in> set (nl @ nl') \<longrightarrow> (\<exists>rel. d = dir @ rel \<and> set rel \<inter> ign = {})"
    using 1(4) 2(4) by auto
  ultimately show ?thesis unfolding walkedBelow_def by blast
qed

lemma walkedBelow_descend:
  assumes "walkedBelow (dir @ [name]) ign st st'" and "name \<notin> ign"
  shows "walkedBelow dir ign st st'"
proof -
  from assms(1) obtain nf nl where 1: "fst st' = fst st @ nf" "snd st' = snd st @ nl"
    "\<forall>p\<in>set nf. \<exists>rel. p = (dir @ [name]) @ rel \<and> rel \<noteq> [] \<and> set (butlast rel) \<inter> ign = {}"
    "\<forall>d. ReadDir d \<in> set nl \<longrightarrow> (\<exists>rel. d = (dir @ [name]) @ rel \<and> set rel \<inter> ign = {})"
    unfolding walkedBelow_def by blast
  have "\<exists>rel. p = dir @ rel \<and> rel \<noteq> [] \<and> set (butlast rel) \<inter> ign = {}" if "p \<in> set nf" for p
  proof -
    from 1(3) that obtain rel where r: "p = (dir @ [name]) @ rel" "rel \<noteq> []" "set (butlast rel) \<inter> ign = {}"
      by blast
    have "p = dir @ (name # rel)" using r(1) by simp
    moreover have "set (butlast (name # rel)) \<inter> ign = {}" using r(2,3) assms(2) by simp
    ultimately show ?thesis by blast
  qed
  moreover have "\<exists>rel. d = dir @ rel \<and> set rel \<inter> ign = {}" if "ReadDir d \<in> set nl" for d
  proof -
    from 1(4) that obtain rel where r: "d = (dir @ [name]) @ rel" "set rel \<inter> ign = {}" by blast
    have "d = dir @ (name # rel)" using r(1) by simp
    moreover have "set (name # rel) \<inter> ign = {}" using r(2) assms(2) by simp
    ultimately show ?thesis by blast
  qed
  ultimately show ?thesis unfolding walkedBelow_def using 1(1,2) by blast
qed

lemma walkedBelow_visitFile: "walkedBelow dir ign st (visitFile (dir @ [name]) name node st)"
proof -
  obtain fl log where st: "st = (fl, log)" by (cases st)
  have "\<exists>nf nl. visitFile (dir @ [name]) name node st = (fl @ nf, log @ nl)
          \<and> set nf \<subseteq> {dir @ [name]} \<and> set nl \<subseteq> {Stat (dir @ [name])}"
    unfolding st visitFile_def by (auto simp: Let_def split: option.splits)
  then obtain nf nl where v: "visitFile (dir @ [name]) name node st = (fl @ nf, log @ nl)"
    and nf: "set nf \<subseteq> {dir @ [name]}" and nl: "set nl \<subseteq> {Stat (dir @ [name])}" by blast
  have "\<forall>p\<in>set nf. \<exists>rel. p = dir @ rel \<and> rel \<noteq> [] \<and> set (butlast rel) \<inter> ign = {}"
  proof
    fix p assume "p \<in> set nf"
    with nf have "p = dir @ [name]" by auto
    then show "\<exists>rel. p = dir @ rel \<and> rel \<noteq> [] \<and> set (butlast rel) \<inter> ign = {}"
      by (intro exI[of _ "[name]"]) simp
  qed
  moreover have "\<forall>d. ReadDir d \<in> set nl \<longrightarrow> (\<exists>rel. d = dir @ rel \<and> set rel \<inter> ign = {})"
    using nl by auto
  ultimately show ?thesis
    unfolding walkedBelow_def st using v[unfolded st]
    by (intro exI[of _ nf] exI[of _ nl]) simp
qed

lemma walkedBelow_ReadDir_step: "walkedBelow dir ign (fl, log) (fl, log @ [ReadDir dir])"
  unfolding walkedBelow_def
  by (intro exI[of _ "[]"] exI[of _ "[ReadDir dir]"]) simp

lemma walkedBelow_ReadDir:
  assumes "walkedBelow dir ign (fl, log @ [ReadDir dir]) st'"
  shows "walkedBelow dir ign (fl, log) st'"
  using walkedBelow_trans[OF walkedBelow_ReadDir_step assms] .

lemma walk_below:
  "walkedBelow dir ign st (finalState (walk dir node ign st))"
  "walkedBelow dir ign st (finalState (walkEntries dir es ign st))"
proof (induction dir node ign st and dir es ign st rule: walk_walkEntries.induct)
  case (1 dir entries ignoreDirs fileList log)
  then show ?case by (auto intro: walkedBelow_ReadDir)
next
  case (4 dir name node rest ignoreDirs st)
  let ?p = "dir @ [name]"
  show ?case
  proof (cases "isDirectory node")
    case dirT: True
    show ?thesis
    proof (cases "name \<in> ignoreDirs")
      case True
      with dirT "4.IH"(1) show ?thesis by simp
    next
      case False
      from "4.IH"(2)[OF refl dirT False]
      have "walkedBelow ?p ignoreDirs st (finalState (walk ?p node ignoreDirs st))" .
      then have b1: "walkedBelow dir ignoreDirs st (finalState (walk ?p node ignoreDirs st))"
        using False by (rule walkedBelow_descend)
      show ?thesis
      proof (cases "walk ?p node ignoreDirs st")
        case (Inl e)
        with dirT False have "walkEntries dir ((name, node) # rest) ignoreDirs st = Inl e" by simp
        with b1 Inl show ?thesis by simp
      next
        case (Inr st1)
        from "4.IH"(3)[OF refl dirT False Inr]
        have "walkedBelow dir ignoreDirs st1 (finalState (walkEntries dir rest ignoreDirs st1))" .
        with b1 Inr have "walkedBelow dir ignoreDirs st (finalState (walkEntries dir rest ignoreDirs st1))"
          by (auto intro: walkedBelow_trans)
        with dirT False Inr show ?thesis by simp
      qed
    qed
  next
    case dirF: False
    show ?thesis
    proof (cases "isFile node")
      case True
      from "4.IH"(4)[OF refl dirF True]
      have "walkedBelow dir ignoreDirs (visitFile ?p name node st)
              (finalState (walkEntries dir rest ignoreDirs (visitFile ?p name node st)))" .
      with walkedBelow_visitFile
      have "walkedBelow dir ignoreDirs st
              (finalState (walkEntries dir rest ignoreDirs (visitFile ?p name node st)))"
        by (rule walkedBelow_trans)
      with dirF True show ?thesis by simp
    next
      case False
      with dirF "4.IH"(5) show ?thesis by simp
    qed
  qed
qed (simp_all add: walkedBelow_refl walkedBelow_ReadDir_step)

lemma walkEntries_append:
  "walkEntries dir (es1 @ es2) ign st
     = (case walkEntries dir es1 ign st of Inl err \<Rightarrow> Inl err | Inr st' \<Rightarrow> walkEntries dir es2 ign st')"
proof (induction es1 arbitrary: st)
  case Nil
  show ?case by simp
next
  case (Cons e es1)
  obtain name node where e: "e = (name, node)" by (cases e)
  show ?case
  proof (cases "isDirectory node")
    case dirT: True
    show ?thesis
    proof (cases "name \<in> ign")
      case True
      with dirT show ?thesis unfolding e by (simp add: Cons.IH)
    next
      case False
      show ?thesis
      proof (cases "walk (dir @ [name]) node ign st")
        case (Inl err)
        with dirT False show ?thesis unfolding e by simp
      next
        case (Inr st1)
        with dirT False show ?thesis unfolding e by (simp add: Cons.IH)
      qed
    qed
  next
    case False
    then show ?thesis unfolding e by (simp add: Cons.IH)
  qed
qed

text \<open>
  C6, as stated, fails: started at a directory that itself bears a name of the ignore set,
  the traversal returns the files in it, and their paths pass through that directory.
  \<open>walk\<close> tests the names of the entries it lists, never the directory it is started at.
\<close>

theorem walk_ignored_directories_counterexample:
  "''build'' \<in> {''build''}
   \<and> walk [''build''] (Directory [(''a.js'', RegularFile (Some 10))]) {''build''} ([], [])
       = Inr ([[''build'', ''a.js'']], [ReadDir [''build'']])
   \<and> ''build'' \<in> set (butlast [''build'', ''a.js''])"
  by (simp add: walk_eval)


text \<open>
  C6, amended. A directory entry whose name is in the ignore set has no effect at all on
  the traversal, whatever lies in it and even when it cannot be listed: the loop behaves
  as if the entry were absent. And every file that a traversal started at \<open>dir\<close> adds lies
  below \<open>dir\<close> with no directory of an ignored name between \<open>dir\<close> and the file, at any
  depth, and every directory it lists is \<open>dir\<close> or is reached from \<open>dir\<close> through names
  outside the ignore set.
\<close>

theorem walk_skips_ignored_directories:
  "(isDirectory node \<and> name \<in> ignoreDirs \<longrightarrow>
      walkEntries dir (before @ (name, node) # after) ignoreDirs st
        = walkEntries dir (before @ after) ignoreDirs st)
   \<and> (\<exists>newFiles newLog.
         finalState (walk dir root ignoreDirs (fileList, log)) = (fileList @ newFiles, log @ newLog)
       \<and> (\<forall>p\<in>set newFiles. \<exists>rel. p = dir @ rel \<and> rel \<noteq> [] \<and> set (butlast rel) \<inter> ignoreDirs = {})
       \<and> (\<forall>d. ReadDir d \<in> set newLog \<longrightarrow> (\<exists>rel. d = dir @ rel \<and> set rel \<inter> ignoreDirs = {})))"
proof (intro conjI impI)
  assume "isDirectory node \<and> name \<in> ignoreDirs"
  then show "walkEntries dir (before @ (name, node) # after) ignoreDirs st
        = walkEntries dir (before @ after) ignoreDirs st"
    by (simp add: walkEntries_append split: sum.splits)
next
  from walk_below(1)[of dir ignoreDirs "(fileList, log)" root]
  obtain newFiles newLog where
    "fst (finalState (walk dir root ignoreDirs (fileList, log))) = fileList @ newFiles"
    "snd (finalState (walk dir root ignoreDirs (fileList, log))) = log @ newLog"
    "\<forall>p\<in>set newFiles. \<exists>rel. p = dir @ rel \<and> rel \<noteq> [] \<and> set (butlast rel) \<inter> ignoreDirs = {}"
    "\<forall>d. ReadDir d \<in> set newLog \<longrightarrow> (\<exists>rel. d = dir @ rel \<and> set rel \<inter> ignoreDirs = {})"
    unfolding walkedBelow_def by auto
  then show "\<exists>newFiles newLog.
         finalState (walk dir root ignoreDirs (fileList, log)) = (fileList @ newFiles, log @ newLog)
       \<and> (\<forall>p\<in>set newFiles. \<exists>rel. p = dir @ rel \<and> rel \<noteq> [] \<and> set (butlast rel) \<inter> ignoreDirs = {})
       \<and> (\<forall>d. ReadDir d \<in> set newLog \<longrightarrow> (\<exists>rel. d = dir @ rel \<and> set rel \<inter> ignoreDirs = {}))"
    by (intro exI[of _ newFiles] exI[of _ newLog]) (simp add: prod_eq_iff)
qed

theorem walk_skips_ignored_directories_witness:
  "isDirectory (Directory [(''b.py'', RegularFile (Some 10))])
   \<and> ''node_modules'' \<in> {''node_modules'', ''vendor''}
   \<and> walkEntries [] [(''a.py'', RegularFile (Some 30)),
                     (''node_modules'', Directory [(''b.py'', RegularFile (Some 10))]),
                     (''src'', Directory [(''vendor'', UnreadableDirectory), (''c.js'', RegularFile None)])]
        {''node_modules'', ''vendor''} ([], [])
       = walkEntries [] [(''a.py'', RegularFile (Some 30)),
                     (''src'', Directory [(''vendor'', UnreadableDirectory), (''c.js'', RegularFile None)])]
        {''node_modules'', ''vendor''} ([], [])
   \<and> walk [] (Directory [(''a.py'', RegularFile (Some 30)),
                     (''node_modules'', Directory [(''b.py'', RegularFile (Some 10))]),
                     (''src'', Directory [(''vendor'', UnreadableDirectory), (''c.js'', RegularFile None)])])
        {''node_modules'', ''vendor''} ([], [])
       = Inr ([[''a.py''], [''src'', ''c.js'']], [ReadDir [], ReadDir [''src'']])
   \<and> (\<exists>newFiles newLog.
         ([[''a.py''], [''src'', ''c.js'']], [ReadDir [], ReadDir [''src'']]) = ([] @ newFiles, [] @ newLog)
       \<and> (\<forall>p\<in>set newFiles. \<exists>rel. p = [] @ rel \<and> rel \<noteq> []
              \<and> set (butlast rel) \<inter> {''node_modules'', ''vendor''} = {})
       \<and> (\<forall>d. ReadDir d \<in> set newLog \<longrightarrow> (\<exists>rel. d = [] @ rel \<and> set rel \<inter> {''node_modules'', ''vendor''} = {})))"
proof -
  let ?ign = "{''node_modules'', ''vendor''}"
  let ?nm = "Directory [(''b.py'', RegularFile (Some 10))]"
  let ?a = "(''a.py'', RegularFile (Some 30))"
  let ?src = "(''src'', Directory [(''vendor'', UnreadableDirectory), (''c.js'', RegularFile None)])"
  let ?t = "Directory [?a, (''node_modules'', ?nm), ?src]"
  have h1: "isDirectory ?nm \<and> ''node_modules'' \<in> ?ign" by simp
  have ev: "walk [] ?t ?ign ([], []) = Inr ([[''a.py''], [''src'', ''c.js'']], [ReadDir [], ReadDir [''src'']])"
    by (simp add: walk_eval)
  have fs: "finalState (walk [] ?t ?ign ([], [])) = ([[''a.py''], [''src'', ''c.js'']], [ReadDir [], ReadDir [''src'']])"
    unfolding ev by simp
  note inst1 = walk_skips_ignored_directories [where node = "?nm" and name = "''node_modules''"
      and ignoreDirs = "?ign" and dir = "[]" and before = "[?a]" and after = "[?src]" and st = "([], [])"
      and root = "?t" and fileList = "[]" and log = "[]"]
  from inst1 h1 have p1: "walkEntries [] ([?a] @ (''node_modules'', ?nm) # [?src]) ?ign ([], [])
       = walkEntries [] ([?a] @ [?src]) ?ign ([], [])" by blast
  from inst1 have p2: "\<exists>newFiles newLog.
         finalState (walk [] ?t ?ign ([], [])) = ([] @ newFiles, [] @ newLog)
       \<and> (\<forall>p\<in>set newFiles. \<exists>rel. p = [] @ rel \<and> rel \<noteq> [] \<and> set (butlast rel) \<inter> ?ign = {})
       \<and> (\<forall>d. ReadDir d \<in> set newLog \<longrightarrow> (\<exists>rel. d = [] @ rel \<and> set rel \<inter> ?ign = {}))"
    by (rule conjunct2)
  from p1 have p1': "walkEntries [] [?a, (''node_modules'', ?nm), ?src] ?ign ([], [])
       = walkEntries [] [?a, ?src] ?ign ([], [])" by simp
  from h1 p1' ev p2[unfolded fs] show ?thesis by blast
qed

text \<open>
  C7. Of the regular files it comes to, \<open>walk\<close> adds exactly the accepted ones, in order:
  a file whose lower-cased extension is in the allow-list whatever its size, and any other
  file iff \<open>stat\<close> succeeds with a size below 1 MiB. \<open>stat\<close> is called exactly for the files
  whose extension is not in the allow-list. A failing \<open>stat\<close> never stops the traversal:
  \<open>walk\<close> succeeds iff every directory it enters can be listed.
\<close>

theorem walk_file_acceptance:
  "fst (finalState (walk dir node ignoreDirs (fileList, log)))
     = fileList @ map fst (filter accepted (reachedFiles dir node ignoreDirs))
   \<and> filter isStat (snd (finalState (walk dir node ignoreDirs (fileList, log))))
     = filter isStat log @ map (\<lambda>e. Stat (fst e)) (filter statted (reachedFiles dir node ignoreDirs))
   \<and> ((\<exists>st'. walk dir node ignoreDirs (fileList, log) = Inr st') \<longleftrightarrow> readable ignoreDirs node)"
proof -
  from walk_reached(1)[of "(fileList, log)" dir node ignoreDirs]
  have r: "walkResult (fileList, log) (reachedFiles dir node ignoreDirs)
             (finalState (walk dir node ignoreDirs (fileList, log)))"
    and l: "isl (walk dir node ignoreDirs (fileList, log)) \<longleftrightarrow> \<not> readable ignoreDirs node"
    by simp_all
  have "(\<exists>st'. walk dir node ignoreDirs (fileList, log) = Inr st') \<longleftrightarrow> readable ignoreDirs node"
    using l by (cases "walk dir node ignoreDirs (fileList, log)") auto
  with r show ?thesis by (simp add: walkResult_def)
qed

theorem walk_file_acceptance_witness:
  "walk [] (Directory [(''a.py'', RegularFile (Some 30)),
                 (''node_modules'', Directory [(''b.py'', RegularFile (Some 10))]),
                 (''big.bin'', RegularFile (Some 2097152)),
                 (''small.bin'', RegularFile (Some 100)),
                 (''gone.bin'', RegularFile None),
                 (''huge.JS'', RegularFile (Some 5242880))]) {''node_modules''} ([], [])
       = Inr ([[''a.py''], [''small.bin''], [''huge.JS'']],
              [ReadDir [], Stat [''big.bin''], Stat [''small.bin''], Stat [''gone.bin'']])
   \<and> map fst (filter accepted (reachedFiles [] (Directory [(''a.py'', RegularFile (Some 30)),
                 (''node_modules'', Directory [(''b.py'', RegularFile (Some 10))]),
                 (''big.bin'', RegularFile (Some 2097152)),
                 (''small.bin'', RegularFile (Some 100)),
                 (''gone.bin'', RegularFile None),
                 (''huge.JS'', RegularFile (Some 5242880))]) {''node_modules''}))
       = [[''a.py''], [''small.bin''], [''huge.JS'']]
   \<and> map (\<lambda>e. Stat (fst e)) (filter statted (reachedFiles [] (Directory [(''a.py'', RegularFile (Some 30)),
                 (''node_modules'', Directory [(''b.py'', RegularFile (Some 10))]),
                 (''big.bin'', RegularFile (Some 2097152)),
                 (''small.bin'', RegularFile (Some 100)),
                 (''gone.bin'', RegularFile None),
                 (''huge.JS'', RegularFile (Some 5242880))]) {''node_modules''}))
       = [Stat [''big.bin''], Stat [''small.bin''], Stat [''gone.bin'']]
   \<and> readable {''node_modules''} (Directory [(''a.py'', RegularFile (Some 30)),
                 (''node_modules'', Directory [(''b.py'', RegularFile (Some 10))]),
                 (''big.bin'', RegularFile (Some 2097152)),
                 (''small.bin'', RegularFile (Some 100)),
                 (''gone.bin'', RegularFile None),
                 (''huge.JS'', RegularFile (Some 5242880))])"
proof -
  let ?t = "Directory [(''a.py'', RegularFile (Some 30)),
                 (''node_modules'', Directory [(''b.py'', RegularFile (Some 10))]),
                 (''big.bin'', RegularFile (Some 2097152)),
                 (''small.bin'', RegularFile (Some 100)),
                 (''gone.bin'', RegularFile None),
                 (''huge.JS'', RegularFile (Some 5242880))]"
  have ev: "walk [] ?t {''node_modules''} ([], [])
       = Inr ([[''a.py''], [''small.bin''], [''huge.JS'']],
              [ReadDir [], Stat [''big.bin''], Stat [''small.bin''], Stat [''gone.bin'']])"
    by (simp add: walk_eval)
  note inst = walk_file_acceptance [of "[]" ?t "{''node_modules''}" "[]" "[]"]
  from inst have "fst (finalState (walk [] ?t {''node_modules''} ([], [])))
       = [] @ map fst (filter accepted (reachedFiles [] ?t {''node_modules''}))" by (rule conjunct1)
  then have p1: "map fst (filter accepted (reachedFiles [] ?t {''node_modules''}))
       = [[''a.py''], [''small.bin''], [''huge.JS'']]" unfolding ev by simp
  from inst have "filter isStat (snd (finalState (walk [] ?t {''node_modules''} ([], []))))
       = filter isStat [] @ map (\<lambda>e. Stat (fst e)) (filter statted (reachedFiles [] ?t {''node_modules''}))"
    by blast
  then have p2: "map (\<lambda>e. Stat (fst e)) (filter statted (reachedFiles [] ?t {''node_modules''}))
       = [Stat [''big.bin''], Stat [''small.bin''], Stat [''gone.bin'']]" unfolding ev by simp
  from inst have "(\<exists>st'. walk [] ?t {''node_modules''} ([], []) = Inr st') \<longleftrightarrow> readable {''node_modules''} ?t"
    by blast
  with ev have p3: "readable {''node_modules''} ?t" by blast
  from ev p1 p2 p3 show ?thesis by blast
qed

text \<open>
  C10. A regular file whose name is in the ignore set is handled as any other regular
  file: the loop applies \<open>visitFile\<close> to it, which adds it iff the acceptance policy accepts
  it. An entry that is neither a regular file nor a directory (a symbolic link, whatever
  its target, a socket, a device) has no effect at all: the loop behaves as if the entry
  were absent.
\<close>

theorem walk_ignore_set_only_for_directories:
  "(name \<in> ignoreDirs \<longrightarrow>
      walkEntries dir (before @ (name, RegularFile size') # after) ignoreDirs st
        = (case walkEntries dir before ignoreDirs st of
             Inl err \<Rightarrow> Inl err
           | Inr st' \<Rightarrow>
               walkEntries dir after ignoreDirs (visitFile (dir @ [name]) name (RegularFile size') st'))
      \<and> fst (visitFile (dir @ [name]) name (RegularFile size') (fileList, log))
          = (if accepted (dir @ [name], name, RegularFile size') then fileList @ [dir @ [name]]
             else fileList))
   \<and> (\<not> isDirectory node \<and> \<not> isFile node \<longrightarrow>
        walkEntries dir (before @ (name, node) # after) ignoreDirs st
          = walkEntries dir (before @ after) ignoreDirs st)"
proof (intro conjI impI)
  show "walkEntries dir (before @ (name, RegularFile size') # after) ignoreDirs st
        = (case walkEntries dir before ignoreDirs st of
             Inl err \<Rightarrow> Inl err
           | Inr st' \<Rightarrow>
               walkEntries dir after ignoreDirs (visitFile (dir @ [name]) name (RegularFile size') st'))"
    by (simp add: walkEntries_append split: sum.splits)
next
  show "fst (visitFile (dir @ [name]) name (RegularFile size') (fileList, log))
          = (if accepted (dir @ [name], name, RegularFile size') then fileList @ [dir @ [name]]
             else fileList)"
    by (auto simp: visitFile_def accepted_def allowedExtension_def Let_def split: option.splits)
next
  assume "\<not> isDirectory node \<and> \<not> isFile node"
  then show "walkEntries dir (before @ (name, node) # after) ignoreDirs st
          = walkEntries dir (before @ after) ignoreDirs st"
    by (simp add: walkEntries_append split: sum.splits)
qed

theorem walk_ignore_set_only_for_directories_witness:
  "''node_modules'' \<in> {''node_modules''}
   \<and> walkEntries [] [(''node_modules'', RegularFile (Some 10))] {''node_modules''} ([], [])
       = Inr ([[''node_modules'']], [Stat [''node_modules'']])
   \<and> \<not> isDirectory (SymbolicLink (Directory [(''x.js'', RegularFile (Some 1))]))
   \<and> \<not> isFile (SymbolicLink (Directory [(''x.js'', RegularFile (Some 1))]))
   \<and> walkEntries [] [(''link'', SymbolicLink (Directory [(''x.js'', RegularFile (Some 1))])),
                     (''a.py'', RegularFile (Some 30))] {''node_modules''} ([], [])
       = walkEntries [] [(''a.py'', RegularFile (Some 30))] {''node_modules''} ([], [])
   \<and> walkEntries [] [(''a.py'', RegularFile (Some 30))] {''node_modules''} ([], [])
       = Inr ([[''a.py'']], [])"
proof -
  let ?ign = "{''node_modules''}"
  let ?ln = "SymbolicLink (Directory [(''x.js'', RegularFile (Some 1))])"
  let ?a = "(''a.py'', RegularFile (Some 30))"
  have h1: "''node_modules'' \<in> ?ign" by simp
  have h2: "\<not> isDirectory ?ln \<and> \<not> isFile ?ln" by simp
  have vf: "visitFile [''node_modules''] ''node_modules'' (RegularFile (Some 10)) ([], [])
       = ([[''node_modules'']], [Stat [''node_modules'']])" by (simp add: walk_eval)
  have ev: "walkEntries [] [?a] ?ign ([], []) = Inr ([[''a.py'']], [])" by (simp add: walk_eval)
  note inst1 = walk_ignore_set_only_for_directories [where name = "''node_modules''"
      and ignoreDirs = "?ign" and dir = "[]" and before = "[]" and after = "[]" and size' = "Some 10"
      and st = "([], [])" and fileList = "[]" and log = "[]" and node = "?ln"]
  from inst1 h1 have "walkEntries [] ([] @ (''node_modules'', RegularFile (Some 10)) # []) ?ign ([], [])
      = (case walkEntries [] [] ?ign ([], []) of Inl err \<Rightarrow> Inl err
         | Inr st' \<Rightarrow> walkEntries [] [] ?ign
             (visitFile ([] @ [''node_modules'']) ''node_modules'' (RegularFile (Some 10)) st'))"
    by blast
  then have p1: "walkEntries [] [(''node_modules'', RegularFile (Some 10))] ?ign ([], [])
       = Inr ([[''node_modules'']], [Stat [''node_modules'']])"
    by (simp add: vf)
  note inst2 = walk_ignore_set_only_for_directories [where name = "''link''"
      and ignoreDirs = "?ign" and dir = "[]" and before = "[]" and after = "[?a]"
      and st = "([], [])" and node = "?ln"]
  from inst2 h2 have "walkEntries [] ([] @ (''link'', ?ln) # [?a]) ?ign ([], [])
      = walkEntries [] ([] @ [?a]) ?ign ([], [])" by blast
  then have p2: "walkEntries [] [(''link'', ?ln), ?a] ?ign ([], []) = walkEntries [] [?a] ?ign ([], [])"
    by simp
  from h1 h2 p1 p2 ev show ?thesis by blast
qed


section \<open>The query and its regular expression\<close>








lemma matchHere_literally:
  "matchHere (literally t) atStart s = prefix (map Canonicalize t) (map Canonicalize s)"
proof (induction t arbitrary: atStart s)
  case Nil
  show ?case by (simp add: literally_def)
next
  case (Cons c t)
  have lit: "literally (c # t) = Atom (Lit c) Once # literally t" by (simp add: literally_def)
  show ?case
  proof (cases s)
    case Nil
    then show ?thesis by (simp add: lit)
  next
    case (Cons x xs)
    with Cons.IH[of False xs] show ?thesis by (auto simp: lit)
  qed
qed

lemma searchFrom_literally:
  "searchFrom (map literally ts) atStart s
     = (\<exists>t\<in>set ts. sublist (map Canonicalize t) (map Canonicalize s))"
proof (induction s arbitrary: atStart)
  case Nil
  show ?case by (auto simp: list_ex_iff matchHere_literally)
next
  case (Cons x xs)
  show ?case
    using Cons.IH[of False]
    by (auto simp: list_ex_iff matchHere_literally sublist_Cons_right)
qed








text \<open>
  C3. When the query, the positional arguments joined by spaces and trimmed, is empty,
  \<open>main\<close> prints the request for a query and exits with status 1, and does nothing else:
  no directory is listed, no file is read and no regular expression is built.
\<close>

theorem main_rejects_empty_query:
  assumes "trim (join '' '' (arg_positional args)) = []"
  shows "main world args = [Stderr ''Please provide a search query.'', Exit 1]"
  using assms by (simp add: main_def)

theorem main_rejects_empty_query_witness:
  "trim (join '' '' (arg_positional \<lparr>arg_positional = [''  '', ''''], arg_dir = [], arg_max = 5, arg_window = 3\<rparr>)) = []
   \<and> trim '''' = [] \<and> trim ''   '' = []
   \<and> main \<lparr>fs_root = Directory [(''a.py'', RegularFile (Some 3))],
            fs_readFile = (\<lambda>p. Some ''foo''),
            createChatCompletion = (\<lambda>prompt. Inr ''summary'')\<rparr>
          \<lparr>arg_positional = [''  '', ''''], arg_dir = [], arg_max = 5, arg_window = 3\<rparr>
       = [Stderr ''Please provide a search query.'', Exit 1]"
proof -
  let ?args = "\<lparr>arg_positional = [''  '', ''''], arg_dir = [], arg_max = 5, arg_window = 3\<rparr>"
  have h: "trim (join '' '' (arg_positional ?args)) = []" by code_simp
  have t: "trim '''' = [] \<and> trim ''   '' = []" by code_simp
  from main_rejects_empty_query [OF h] h t show ?thesis by blast
qed












text \<open>
  C9 fails on the code. With one match in \<open>a.py\<close> and a failing chat completion, \<open>main\<close>
  reports the error and prints the heading \<open>Snippets:\<close> followed by the header
  \<open>[1] a.py:2\<close> of the match: the path and the line number, but not the snippet text,
  which only the prompt contains.
\<close>

theorem main_fallback_prints_no_snippet:
  "main \<lparr>fs_root = Directory [(''a.py'', RegularFile (Some 14))],
          fs_readFile = (\<lambda>p. if p = [''a.py''] then Some [CHR ''x'', LF, CHR ''i'', CHR ''m'', CHR ''p'',
             CHR ''o'', CHR ''r'', CHR ''t'', CHR '' '', CHR ''f'', CHR ''o'', CHR ''o'', LF, CHR ''y''] else None),
          createChatCompletion = (\<lambda>prompt. Inl ''timeout'')\<rparr>
        \<lparr>arg_positional = [''foo''], arg_dir = [], arg_max = 5, arg_window = 1\<rparr>
   = [NewRegExp ''foo'', ReadDir [], ReadFile [''a.py''],
      TestLine [''a.py''] 0, TestLine [''a.py''] 1, Push [''a.py''] 2, TestLine [''a.py''] 2,
      ChatCompletion (buildPrompt ''foo''
        [\<lparr>file = [''a.py''], line = 2,
          snippet = [CHR ''x'', LF, CHR ''i'', CHR ''m'', CHR ''p'', CHR ''o'', CHR ''r'', CHR ''t'',
             CHR '' '', CHR ''f'', CHR ''o'', CHR ''o'', LF, CHR ''y'']\<rparr>]),
      Stderr ''Error calling OpenAI API: timeout'',
      Stdout ''Snippets:'',
      Stdout ''[1] a.py:2'']"
  by code_simp

section \<open>Files that cannot be decoded\<close>

lemma splitLinesFrom_nonempty: "splitLinesFrom cur s \<noteq> []"
  by (induction cur s rule: splitLinesFrom.induct) auto

lemma CR_neq_LF: "CR \<noteq> LF"
  by (simp add: CR_def LF_def)

lemma splitLinesFrom_LF:
  "last (splitLinesFrom cur (LF # rest)) = last (splitLinesFrom [] rest)"
proof (cases rest)
  case Nil
  then show ?thesis by simp
next
  case (Cons d ds)
  have "splitLinesFrom cur (LF # d # ds) = cur # splitLinesFrom [] (d # ds)"
    using CR_neq_LF by simp
  with splitLinesFrom_nonempty[of "[]" "d # ds"] show ?thesis unfolding Cons by simp
qed

lemma splitLinesFrom_last:
  "last (splitLinesFrom cur (g @ LF # rest)) = last (splitLinesFrom [] rest)"
proof (induction cur g rule: splitLinesFrom.induct)
  case (1 cur)
  show ?case using splitLinesFrom_LF[of cur rest] by simp
next
  case (2 cur c)
  show ?case
  proof (cases "c = CR")
    case True
    then have "splitLinesFrom cur ([c] @ LF # rest) = cur # splitLinesFrom [] rest" by simp
    with splitLinesFrom_nonempty[of "[]" rest] show ?thesis by simp
  next
    case nocr: False
    show ?thesis
    proof (cases "c = LF")
      case True
      then have "splitLinesFrom cur ([c] @ LF # rest) = cur # splitLinesFrom [] (LF # rest)"
        using CR_neq_LF by simp
      with splitLinesFrom_nonempty[of "[]" "LF # rest"] splitLinesFrom_LF[of "[]" rest]
      show ?thesis by simp
    next
      case False
      with nocr have "splitLinesFrom cur ([c] @ LF # rest) = splitLinesFrom (cur @ [c]) (LF # rest)"
        by simp
      with splitLinesFrom_LF[of "cur @ [c]" rest] show ?thesis by simp
    qed
  qed
next
  case (3 cur c d cs)
  let ?tail = "cs @ LF # rest"
  show ?case
  proof (cases "c = CR \<and> d = LF")
    case True
    then have "splitLinesFrom cur ((c # d # cs) @ LF # rest) = cur # splitLinesFrom [] ?tail"
      by simp
    with "3.IH"(1)[OF True] splitLinesFrom_nonempty[of "[]" ?tail] show ?thesis by simp
  next
    case nocr: False
    show ?thesis
    proof (cases "c = LF")
      case True
      with nocr have "splitLinesFrom cur ((c # d # cs) @ LF # rest)
                        = cur # splitLinesFrom [] ((d # cs) @ LF # rest)"
        using CR_neq_LF by simp
      with "3.IH"(2)[OF nocr True] splitLinesFrom_nonempty[of "[]" "(d # cs) @ LF # rest"]
      show ?thesis by simp
    next
      case False
      with nocr have "splitLinesFrom cur ((c # d # cs) @ LF # rest)
                        = splitLinesFrom (cur @ [c]) ((d # cs) @ LF # rest)"
        by auto
      with "3.IH"(3)[OF nocr False] show ?thesis by simp
    qed
  qed
qed

lemma splitLines_foo: "splitLinesFrom [] ''foo'' = [''foo'']"
  by (simp add: LF_def CR_def)

text \<open>
  C8 fails on the code for the decode half. \<open>readFile(file, 'utf8')\<close> rejects when the file
  cannot be read, and such a file is skipped; it never rejects on the content: bytes that
  are not text are decoded all the same, and the file is searched like any other.
  Whatever the first line of a binary file decodes to, a second line \<open>foo\<close> is tested and
  pushed; for a file holding the bytes 7F 45 4C 46 00, a line feed and \<open>foo\<close>, the search
  returns the record of line 2.
\<close>

theorem searchFiles_scans_undecodable:
  "fst (searchFiles (\<lambda>p. Some (garbage @ LF # ''foo'')) [[''a.bin'']]
          (RegExp_test [literally ''foo'']) 0 5) \<noteq> []
   \<and> searchFiles (\<lambda>p. Some [CHR 0x7F, CHR ''E'', CHR ''L'', CHR ''F'', CHR 0x00, LF,
                               CHR ''f'', CHR ''o'', CHR ''o'']) [[''a.bin'']]
        (RegExp_test [literally ''foo'']) 0 5
     = ([\<lparr>file = [''a.bin''], line = 2, snippet = ''foo''\<rparr>],
        [ReadFile [''a.bin''], TestLine [''a.bin''] 0, TestLine [''a.bin''] 1, Push [''a.bin''] 2])"
proof
  let ?rf = "\<lambda>p :: path. Some (garbage @ LF # ''foo'')"
  let ?re = "RegExp_test [literally ''foo'']"
  let ?lines = "splitLines (garbage @ LF # ''foo'')"
  let ?P = "\<lambda>i. ?re (?lines ! i)"
  have ne: "?lines \<noteq> []" by (simp add: splitLines_def splitLinesFrom_nonempty)
  have "last ?lines = ''foo''"
    unfolding splitLines_def splitLinesFrom_last splitLines_foo by simp
  then have l: "?lines ! (length ?lines - 1) = ''foo''" using ne by (simp add: last_conv_nth)
  have "?re ''foo''" using searchFrom_literally[of "[''foo'']" True "''foo''"]
    by (simp add: RegExp_test_def)
  with l have "?P (length ?lines - 1)" by simp
  moreover have "length ?lines - 1 \<in> set [0..<length ?lines]" using ne by simp
  ultimately have f: "filter ?P [0..<length ?lines] \<noteq> []"
    unfolding filter_empty_conv by blast
  have "fst (searchFiles ?rf [[''a.bin'']] ?re 0 5)
          = take 5 (fileMatches ?rf ?re 0 [''a.bin''])"
    by (simp add: searchFiles_results allMatches_def)
  also have "\<dots> \<noteq> []" using f by (simp add: fileMatches_def)
  finally show "fst (searchFiles ?rf [[''a.bin'']] ?re 0 5) \<noteq> []" .
next
  show "searchFiles (\<lambda>p. Some [CHR 0x7F, CHR ''E'', CHR ''L'', CHR ''F'', CHR 0x00, LF,
                               CHR ''f'', CHR ''o'', CHR ''o'']) [[''a.bin'']]
        (RegExp_test [literally ''foo'']) 0 5
     = ([\<lparr>file = [''a.bin''], line = 2, snippet = ''foo''\<rparr>],
        [ReadFile [''a.bin''], TestLine [''a.bin''] 0, TestLine [''a.bin''] 1, Push [''a.bin''] 2])"
    by code_simp
qed


end
